theory Spec2Isabelle
  imports Complex_Main "HOL-Library.Sublist" "HOL-Library.Signed_Division"
begin

section \<open>Strings and alphabets\<close>

text \<open>
  A string of the program is a \<^typ>\<open>string\<close>; \<open>s.length\<close> is \<^const>\<open>length\<close>,
  \<open>a + b\<close> is \<open>a @ b\<close>, \<open>s.slice(0, n)\<close> is \<open>take n s\<close> and \<open>s.slice(n)\<close> is
  \<open>drop n s\<close> for a non-negative integer \<open>n\<close>. The character repertoire is that of the
  program's own alphabets, dictionary and letter pools; case conversion moves the ASCII
  letters and keeps every other character. Lengths (\<open>length\<close>, \<open>maxLength\<close>) are
  non-negative integers, as the contracts of the composer and of the word source say; the
  parameter the source calls \<open>length\<close> is called \<open>len\<close> here.
\<close>

definition symbols :: string where
  "symbols = ''!@#$%^&*()_+{}:'' @ [CHR 0x22] @ ''<>?|[];'' @ [CHR 0x27] @ '',./''
     @ [CHR 0x60] @ ''~'' @ [CHR 0x5C]"

definition lower :: string where
  "lower = ''abcdefghijklmnopqrstuvwxyz''"

definition charCodeAt0 :: "char \<Rightarrow> int" where
  "charCodeAt0 c = of_char c"

definition fromCharCode :: "int \<Rightarrow> char" where
  "fromCharCode n = char_of n"

definition isLowerLetter :: "char \<Rightarrow> bool" where
  "isLowerLetter c = (97 \<le> charCodeAt0 c \<and> charCodeAt0 c \<le> 122)"

definition isUpperLetter :: "char \<Rightarrow> bool" where
  "isUpperLetter c = (65 \<le> charCodeAt0 c \<and> charCodeAt0 c \<le> 90)"

definition toUpperCase_char :: "char \<Rightarrow> char" where
  "toUpperCase_char c = (if isLowerLetter c then fromCharCode (charCodeAt0 c - 32) else c)"

definition toLowerCase_char :: "char \<Rightarrow> char" where
  "toLowerCase_char c = (if isUpperLetter c then fromCharCode (charCodeAt0 c + 32) else c)"

definition toUpperCase :: "string \<Rightarrow> string" where
  "toUpperCase s = map toUpperCase_char s"

definition toLowerCase :: "string \<Rightarrow> string" where
  "toLowerCase s = map toLowerCase_char s"

definition upper :: string where
  "upper = toUpperCase lower"

definition numbers :: string where
  "numbers = ''0123456789''"

text \<open>\<open>s.charAt(i)\<close>: the one-character string at index \<open>i\<close>, the empty string out of range.\<close>

definition charAt :: "string \<Rightarrow> nat \<Rightarrow> string" where
  "charAt s i = (if i < length s then [s ! i] else [])"

text \<open>\<open>xs[i]\<close> on an array: the element, or \<open>undefined\<close> (\<open>None\<close>) out of range.\<close>

definition elementAt :: "'a list \<Rightarrow> nat \<Rightarrow> 'a option" where
  "elementAt xs i = (if i < length xs then Some (xs ! i) else None)"

section \<open>The local dictionaries\<close>

definition localWords :: "string list" where
  "localWords = filter (\<lambda>word. 4 \<le> length word)
     [''avocado'', ''bamboo'', ''cascade'', ''delight'', ''echo'',
      ''flamingo'', ''gazelle'', ''harmony'', ''ivory'', ''jubilee'',
      ''koala'', ''lagoon'', ''mango'', ''nirvana'', ''octopus'',
      ''penguin'', ''quasar'', ''rainbow'', ''sunset'', ''tundra'',
      ''umbra'', ''vortex'', ''waterfall'', ''xylophone'', ''yellow'',
      ''zebra'', ''alpine'', ''blossom'', ''coral'', ''dolphin'',
      ''evergreen'', ''firefly'', ''glacier'', ''honeydew'', ''island'',
      ''jungle'', ''kiwi'', ''lighthouse'', ''mountain'', ''nebula'',
      ''oasis'', ''peacock'', ''quartz'', ''river'', ''starlight'',
      ''tropical'', ''unicorn'', ''volcano'', ''whirlpool'', ''xenon'', ''cats'',
      ''dogs'', ''duck'', ''golf'', ''jazz'', ''owls'', ''moon'']"

text \<open>
  The second source file (the variant of the program without the cipher) has the same
  dictionary without its last seven words.
\<close>

definition localWords_variant :: "string list" where
  "localWords_variant = filter (\<lambda>word. 4 \<le> length word)
     [''avocado'', ''bamboo'', ''cascade'', ''delight'', ''echo'',
      ''flamingo'', ''gazelle'', ''harmony'', ''ivory'', ''jubilee'',
      ''koala'', ''lagoon'', ''mango'', ''nirvana'', ''octopus'',
      ''penguin'', ''quasar'', ''rainbow'', ''sunset'', ''tundra'',
      ''umbra'', ''vortex'', ''waterfall'', ''xylophone'', ''yellow'',
      ''zebra'', ''alpine'', ''blossom'', ''coral'', ''dolphin'',
      ''evergreen'', ''firefly'', ''glacier'', ''honeydew'', ''island'',
      ''jungle'', ''kiwi'', ''lighthouse'', ''mountain'', ''nebula'',
      ''oasis'', ''peacock'', ''quartz'', ''river'', ''starlight'',
      ''tropical'', ''unicorn'', ''volcano'', ''whirlpool'', ''xenon'']"

section \<open>The world: rotation cursor, random source, network\<close>

text \<open>
  What a provider attempt can meet. \<open>fetchWithTimeout\<close> throws when the request is
  aborted by the timer or the network fails (\<open>NetworkError\<close>); \<open>response.json()\<close>
  rejects on a malformed body (\<open>SyntaxError\<close>); a parser throws when it indexes
  \<open>null\<close> (\<open>TypeError\<close>). A decoded body is \<open>null\<close> or an array whose elements are
  strings or objects with an optional string field \<open>word\<close>: the shapes the four parsers
  read. So the token a parser extracts is a string or nothing, as the result type
  \<open>Promise<string>\<close> of \<open>fetchRandomWord\<close> declares.
\<close>

datatype error = NetworkError | SyntaxError | TypeError

datatype item = Str string | Obj "string option"

datatype json = JNull | JArray "item list"

datatype response = Response (ok: bool) (body: "json option")

text \<open>
  The state the functions thread: the module-level \<open>apiIndex\<close>; the results of the
  coming calls of \<open>Math.random()\<close>, in order; the network, which answers the \<open>k\<close>-th
  request of the run, made to a URL; and the log of the URLs requested so far.
\<close>

record world =
  apiIndex :: nat
  randoms :: "nat \<Rightarrow> real"
  network :: "nat \<Rightarrow> string \<Rightarrow> error + response"
  requests :: "string list"

text \<open>\<open>Math.random()\<close> returns a number in \<open>[0, 1)\<close>.\<close>

definition valid_randoms :: "world \<Rightarrow> bool" where
  "valid_randoms w = (\<forall>i. 0 \<le> randoms w i \<and> randoms w i < 1)"

definition Math_random :: "world \<Rightarrow> real \<times> world" where
  "Math_random w = (randoms w 0, w\<lparr>randoms := (\<lambda>i. randoms w (Suc i))\<rparr>)"

text \<open>\<open>Math.floor(Math.random() * n)\<close>, the idiom of every random pick of the program.\<close>

definition randomIndex :: "nat \<Rightarrow> world \<Rightarrow> nat \<times> world" where
  "randomIndex n w = (let (r, w1) = Math_random w in (nat \<lfloor>r * real n\<rfloor>, w1))"

section \<open>Word case\<close>

datatype WordCase = Lower | Upper | Random

fun randomizeCase :: "string \<Rightarrow> world \<Rightarrow> string \<times> world" where
  "randomizeCase [] w = ([], w)"
| "randomizeCase (c # cs) w =
     (let (r, w1) = Math_random w;
          c' = (if r > 0.5 then toUpperCase_char c else toLowerCase_char c);
          (rest, w2) = randomizeCase cs w1
      in (c' # rest, w2))"

definition applyWordCase :: "string \<Rightarrow> WordCase \<Rightarrow> world \<Rightarrow> string \<times> world" where
  "applyWordCase word caseType w =
     (case caseType of
        Lower \<Rightarrow> (toLowerCase word, w)
      | Upper \<Rightarrow> (toUpperCase word, w)
      | Random \<Rightarrow> randomizeCase word w)"

section \<open>The word providers\<close>

fun decimal :: "nat \<Rightarrow> string" where
  "decimal n =
     (if n < 10 then [char_of (48 + n)] else decimal (n div 10) @ [char_of (48 + n mod 10)])"

declare decimal.simps [simp del]

record WordApi =
  name :: string
  url :: "nat \<Rightarrow> string"
  parser :: "json \<Rightarrow> world \<Rightarrow> (error + item option) \<times> world"

text \<open>\<open>data[i]\<close>: a \<open>TypeError\<close> on \<open>null\<close>, else the element or \<open>undefined\<close>.\<close>

definition dataAt :: "json \<Rightarrow> nat \<Rightarrow> error + item option" where
  "dataAt data i = (case data of JNull \<Rightarrow> Inl TypeError | JArray xs \<Rightarrow> Inr (elementAt xs i))"

text \<open>\<open>v?.word\<close>: \<open>undefined\<close> on \<open>undefined\<close> and on a string, else the field.\<close>

definition optWord :: "item option \<Rightarrow> item option" where
  "optWord v = (case v of None \<Rightarrow> None | Some (Str s) \<Rightarrow> None | Some (Obj f) \<Rightarrow> map_option Str f)"

definition parseFirst :: "json \<Rightarrow> world \<Rightarrow> (error + item option) \<times> world" where
  "parseFirst data w = (dataAt data 0, w)"

text \<open>
  The Datamuse parser, \<open>data[Math.floor(Math.random() * data.length)]?.word\<close>: the
  random number is drawn before \<open>data.length\<close> is read.
\<close>

definition parseRandomWord :: "json \<Rightarrow> world \<Rightarrow> (error + item option) \<times> world" where
  "parseRandomWord data w =
     (let (r, w1) = Math_random w in
      case data of
        JNull \<Rightarrow> (Inl TypeError, w1)
      | JArray xs \<Rightarrow> (Inr (optWord (elementAt xs (nat \<lfloor>r * real (length xs)\<rfloor>))), w1))"

definition parseFirstWord :: "json \<Rightarrow> world \<Rightarrow> (error + item option) \<times> world" where
  "parseFirstWord data w = (map_sum id optWord (dataAt data 0), w)"

definition WORD_APIS :: "WordApi list" where
  "WORD_APIS =
    [\<lparr>name = ''RandomWordAPI'',
      url = (\<lambda>len. ''https://random-word-api.herokuapp.com/word?number=1&length='' @ decimal len),
      parser = parseFirst\<rparr>,
     \<lparr>name = ''Datamuse'',
      url = (\<lambda>len. ''https://api.datamuse.com/words?sp='' @ replicate len CHR ''?'' @ ''&max=10''),
      parser = parseRandomWord\<rparr>,
     \<lparr>name = ''Wordnik'',
      url = (\<lambda>len. ''https://api.wordnik.com/v4/words.json/randomWords?limit=1&minLength=''
               @ decimal len @ ''&maxLength='' @ decimal len @ ''&api_key=YOUR_API_KEY''),
      parser = parseFirstWord\<rparr>,
     \<lparr>name = ''WiktionaryBackups'',
      url = (\<lambda>len. ''https://random-word-form.herokuapp.com/random/noun?length='' @ decimal len),
      parser = parseFirst\<rparr>]"

text \<open>
  \<open>fetchWithTimeout\<close>: the request is logged and the network answers it; on both paths
  the timer is cleared, and an error is thrown again to the caller.
\<close>

definition fetchWithTimeout :: "string \<Rightarrow> world \<Rightarrow> (error + response) \<times> world" where
  "fetchWithTimeout u w =
     (network w (length (requests w)) u, w\<lparr>requests := requests w @ [u]\<rparr>)"

text \<open>
  \<open>word && word.length <= maxLength\<close>: a non-empty string within the bound. An object
  is truthy but has no \<open>length\<close>, and \<open>undefined <= maxLength\<close> is false.
\<close>

definition accepted :: "item option \<Rightarrow> nat \<Rightarrow> string option" where
  "accepted v maxLength =
     (case v of
        Some (Str s) \<Rightarrow> if s \<noteq> [] \<and> length s \<le> maxLength then Some s else None
      | _ \<Rightarrow> None)"

text \<open>
  The body of the \<open>try\<close> block of one attempt: \<open>Inl\<close> is a throw (caught by the loop),
  \<open>Inr None\<close> is \<open>continue\<close> or falling out of the block, \<open>Inr (Some word)\<close> is
  \<open>return word\<close>.
\<close>

definition attempt :: "WordApi \<Rightarrow> nat \<Rightarrow> world \<Rightarrow> (error + string option) \<times> world" where
  "attempt api maxLength w =
     (let (res, w1) = fetchWithTimeout (url api maxLength) w in
      case res of
        Inl e \<Rightarrow> (Inl e, w1)
      | Inr resp \<Rightarrow>
          if \<not> ok resp then (Inr None, w1)
          else (case body resp of
                  None \<Rightarrow> (Inl SyntaxError, w1)
                | Some data \<Rightarrow>
                    (let (word, w2) = parser api data w1 in
                     case word of
                       Inl e \<Rightarrow> (Inl e, w2)
                     | Inr v \<Rightarrow> (Inr (accepted v maxLength), w2))))"

function fetchRandomWord_loop :: "nat \<Rightarrow> nat \<Rightarrow> world \<Rightarrow> string option \<times> world" where
  "fetchRandomWord_loop i maxLength w =
     (if i < length WORD_APIS then
        (let api = WORD_APIS ! (apiIndex w mod length WORD_APIS);
             w1 = w\<lparr>apiIndex := apiIndex w + 1\<rparr>;
             (res, w2) = attempt api maxLength w1
         in case res of
              Inl e \<Rightarrow> fetchRandomWord_loop (i + 1) maxLength w2
            | Inr None \<Rightarrow> fetchRandomWord_loop (i + 1) maxLength w2
            | Inr (Some word) \<Rightarrow> (Some word, w2))
      else (None, w))"
  by pat_completeness auto
termination
  by (relation "measure (\<lambda>(i, maxLength, w). length WORD_APIS - i)") auto

declare fetchRandomWord_loop.simps [simp del]

section \<open>The synthetic word and the random filler\<close>

definition vowels :: string where
  "vowels = ''aeiou''"

definition consonants :: string where
  "consonants = ''bcdfghjklmnpqrstvwxyz''"

function generateFallbackWord_loop :: "nat \<Rightarrow> nat \<Rightarrow> string \<Rightarrow> world \<Rightarrow> string \<times> world" where
  "generateFallbackWord_loop i len word w =
     (if i < len then
        (if i mod 2 = 0 then
           (let (k, w1) = randomIndex (length consonants) w
            in generateFallbackWord_loop (i + 1) len (word @ charAt consonants k) w1)
         else
           (let (k, w1) = randomIndex (length vowels) w
            in generateFallbackWord_loop (i + 1) len (word @ charAt vowels k) w1))
      else (word, w))"
  by pat_completeness auto
termination
  by (relation "measure (\<lambda>(i, len, word, w). len - i)") auto

declare generateFallbackWord_loop.simps [simp del]

definition generateFallbackWord :: "nat \<Rightarrow> world \<Rightarrow> string \<times> world" where
  "generateFallbackWord len w = generateFallbackWord_loop 0 len [] w"

function generateRandomChars_loop :: "nat \<Rightarrow> nat \<Rightarrow> string \<Rightarrow> string \<Rightarrow> world \<Rightarrow> string \<times> world" where
  "generateRandomChars_loop i len charSet result w =
     (if i < len then
        (let (k, w1) = randomIndex (length charSet) w
         in generateRandomChars_loop (i + 1) len charSet (result @ charAt charSet k) w1)
      else (result, w))"
  by pat_completeness auto
termination
  by (relation "measure (\<lambda>(i, len, charSet, result, w). len - i)") auto

declare generateRandomChars_loop.simps [simp del]

definition generateRandomChars :: "nat \<Rightarrow> string \<Rightarrow> world \<Rightarrow> string \<times> world" where
  "generateRandomChars len charSet w = generateRandomChars_loop 0 len charSet [] w"

section \<open>The word source\<close>

text \<open>
  An \<open>async\<close> function returns a promise: \<open>Inr\<close> its value when it resolves, \<open>Inl\<close> the
  error when it rejects. The two source files have the same \<open>fetchRandomWord\<close>, each
  over its own dictionary, which is the first argument here.
\<close>

definition fetchRandomWord_over :: "string list \<Rightarrow> nat \<Rightarrow> world \<Rightarrow> (error + string) \<times> world" where
  "fetchRandomWord_over dictionary maxLength w =
     (case fetchRandomWord_loop 0 maxLength w of
        (Some word, w1) \<Rightarrow> (Inr word, w1)
      | (None, w1) \<Rightarrow>
          (let validWords = filter (\<lambda>word. length word \<le> maxLength) dictionary;
               (k, w2) = randomIndex (length validWords) w1
           in case elementAt validWords k of
                Some word \<Rightarrow>
                  if word \<noteq> [] then (Inr word, w2)
                  else (let (fallback, w3) = generateFallbackWord maxLength w2 in (Inr fallback, w3))
              | None \<Rightarrow>
                  (let (fallback, w3) = generateFallbackWord maxLength w2 in (Inr fallback, w3))))"

definition fetchRandomWord :: "nat \<Rightarrow> world \<Rightarrow> (error + string) \<times> world" where
  "fetchRandomWord = fetchRandomWord_over localWords"

definition fetchRandomWord_variant :: "nat \<Rightarrow> world \<Rightarrow> (error + string) \<times> world" where
  "fetchRandomWord_variant = fetchRandomWord_over localWords_variant"

section \<open>The composer\<close>

record options =
  opt_lower :: bool
  opt_upper :: bool
  opt_numbers :: bool
  opt_symbols :: bool
  opt_word :: bool

text \<open>The first five lines of \<open>generatePassword\<close>, the same in both source files.\<close>

definition charSetOf :: "options \<Rightarrow> string" where
  "charSetOf opts =
     (let charSet = [];
          charSet = (if opt_lower opts then charSet @ lower else charSet);
          charSet = (if opt_upper opts then charSet @ upper else charSet);
          charSet = (if opt_numbers opts then charSet @ numbers else charSet);
          charSet = (if opt_symbols opts then charSet @ symbols else charSet)
      in charSet)"

definition generatePassword :: "nat \<Rightarrow> options \<Rightarrow> WordCase \<Rightarrow> world \<Rightarrow> (error + string) \<times> world" where
  "generatePassword len opts wordCase w =
     (let charSet = charSetOf opts in
      if charSet = [] \<and> \<not> opt_word opts then (Inr [], w)
      else if opt_word opts then
        (case fetchRandomWord (min len 8) w of
           (Inl e, w1) \<Rightarrow> (Inl e, w1)
         | (Inr word, w1) \<Rightarrow>
             (let (caseAdjustedWord, w2) = applyWordCase word wordCase w1;
                  remainingLength = int len - int (length caseAdjustedWord)
              in if charSet \<noteq> [] \<and> remainingLength > 0 then
                   (let (randomChars, w3) = generateRandomChars (nat remainingLength) charSet w2;
                        (insertPos, w4) = randomIndex (length randomChars + 1) w3
                    in (Inr (take insertPos randomChars @ caseAdjustedWord
                             @ drop insertPos randomChars), w4))
                 else if charSet \<noteq> [] \<and> remainingLength \<le> 0 then
                   (Inr (take len caseAdjustedWord), w2)
                 else (Inr (take len caseAdjustedWord), w2)))
      else (let (result, w1) = generateRandomChars len charSet w in (Inr result, w1)))"


section \<open>The cipher\<close>

text \<open>
  \<open>text.replace(/[a-z]/gi, f)\<close> replaces every ASCII letter \<open>char\<close> by \<open>f(char)\<close> and
  keeps the other characters. \<open>%\<close> is the remainder of the truncating division
  (\<open>smod\<close>).
\<close>

definition caesarChar :: "int \<Rightarrow> char \<Rightarrow> char" where
  "caesarChar shift c =
     (let base = (if isLowerLetter c then 97 else 65)
      in fromCharCode (((charCodeAt0 c - base + shift + 26) smod 26) + base))"

definition caesarCipher :: "string \<Rightarrow> int \<Rightarrow> string" where
  "caesarCipher text shift =
     map (\<lambda>c. if isLowerLetter c \<or> isUpperLetter c then caesarChar shift c else c) text"

section \<open>Notions used in the statements\<close>

text \<open>
  A provider fails when its request throws (timeout or network failure) or is answered
  with a non-success status; the attempt then yields no word.
\<close>

definition failing :: "error + response \<Rightarrow> bool" where
  "failing r = (case r of Inl e \<Rightarrow> True | Inr resp \<Rightarrow> \<not> ok resp)"

text \<open>
  The URLs of \<open>k\<close> attempts in rotation with the bound \<open>m\<close>, from the cursor \<open>c\<close>: attempt
  \<open>j\<close> asks provider \<open>(c + j) mod 4\<close>.
\<close>

definition attemptUrls :: "nat \<Rightarrow> nat \<Rightarrow> nat \<Rightarrow> string list" where
  "attemptUrls c m k = map (\<lambda>j. url (WORD_APIS ! ((c + j) mod 4)) m) [0..<k]"

text \<open>
  The program at its start (cursor \<open>0\<close>, no request made yet), on a network where every
  request fails and with a random source that always yields \<open>r\<close>.
\<close>

definition offline :: "real \<Rightarrow> world" where
  "offline r = \<lparr>apiIndex = 0, randoms = (\<lambda>i. r), network = (\<lambda>k u. Inl NetworkError),
                requests = []\<rparr>"

text \<open>
  The program at its start on a network where every request is answered with a success
  status and the decoded body \<open>data\<close>.
\<close>

definition answering :: "json \<Rightarrow> real \<Rightarrow> world" where
  "answering data r = \<lparr>apiIndex = 0, randoms = (\<lambda>i. r),
     network = (\<lambda>k u. Inr (Response True (Some data))), requests = []\<rparr>"

text \<open>Consecutive calls of \<open>fetchRandomWord\<close>, each awaited before the next, with the given bounds.\<close>

fun fetchRandomWords :: "nat list \<Rightarrow> world \<Rightarrow> world" where
  "fetchRandomWords [] w = w"
| "fetchRandomWords (m # ms) w = fetchRandomWords ms (snd (fetchRandomWord m w))"

text \<open>
  The cipher as the specification words it: a letter moves forward by \<open>shift\<close> positions
  within the alphabet of its own case, wrapping modulo 26; any other character stays.
\<close>

fun indexOf :: "'a list \<Rightarrow> 'a \<Rightarrow> nat" where
  "indexOf [] x = 0"
| "indexOf (y # ys) x = (if x = y then 0 else Suc (indexOf ys x))"

definition encode_char_spec :: "int \<Rightarrow> char \<Rightarrow> char" where
  "encode_char_spec shift c =
     (if c \<in> set lower then lower ! ((indexOf lower c + nat shift) mod 26)
      else if c \<in> set upper then upper ! ((indexOf upper c + nat shift) mod 26)
      else c)"

definition encode_spec :: "string \<Rightarrow> int \<Rightarrow> string" where
  "encode_spec text shift = map (encode_char_spec shift) text"

section \<open>Properties of the model\<close>

subsection \<open>Random picks\<close>

lemma Math_random_frame [simp]:
  "apiIndex (snd (Math_random w)) = apiIndex w"
  "network (snd (Math_random w)) = network w"
  "requests (snd (Math_random w)) = requests w"
  by (simp_all add: Math_random_def)

lemma Math_random_valid: "valid_randoms w \<Longrightarrow> valid_randoms (snd (Math_random w))"
  by (simp add: Math_random_def valid_randoms_def)

lemma Math_random_range:
  "valid_randoms w \<Longrightarrow> 0 \<le> fst (Math_random w) \<and> fst (Math_random w) < 1"
  by (simp add: Math_random_def valid_randoms_def)

lemma floor_scale_less:
  fixes r :: real
  assumes "0 \<le> r" "r < 1" "0 < n"
  shows "nat \<lfloor>r * real n\<rfloor> < n"
proof -
  have "r * real n < real n" using assms by simp
  then have "\<lfloor>r * real n\<rfloor> < int n" by (simp add: floor_less_iff)
  then show ?thesis using assms by linarith
qed

lemma randomIndex_frame [simp]:
  "apiIndex (snd (randomIndex n w)) = apiIndex w"
  "network (snd (randomIndex n w)) = network w"
  "requests (snd (randomIndex n w)) = requests w"
  by (simp_all add: randomIndex_def split_beta)

lemma randomIndex_valid: "valid_randoms w \<Longrightarrow> valid_randoms (snd (randomIndex n w))"
  by (simp add: randomIndex_def split_beta Math_random_valid)

lemma randomIndex_less: "valid_randoms w \<Longrightarrow> 0 < n \<Longrightarrow> fst (randomIndex n w) < n"
  using Math_random_range [of w] by (simp add: randomIndex_def split_beta floor_scale_less)


lemma charAt_in_range: "k < length s \<Longrightarrow> charAt s k = [s ! k]"
  by (simp add: charAt_def)

lemma set_charAt: "set (charAt s k) \<subseteq> set s"
  by (auto simp: charAt_def)

lemma elementAt_SomeD: "elementAt xs k = Some x \<Longrightarrow> k < length xs \<and> x = xs ! k"
  by (auto simp: elementAt_def split: if_splits)

subsection \<open>The loop of generateRandomChars\<close>


lemma generateRandomChars_loop_valid:
  "valid_randoms w \<Longrightarrow> valid_randoms (snd (generateRandomChars_loop i len cs res w))"
proof (induction i len cs res w rule: generateRandomChars_loop.induct)
  case (1 i len cs res w)
  show ?case
  proof (cases "i < len")
    case True
    then show ?thesis
      using "1.IH" [OF True refl prod.collapse] "1.prems"
      by (subst generateRandomChars_loop.simps) (simp add: split_beta randomIndex_valid)
  next
    case False
    then show ?thesis using "1.prems" by (simp add: generateRandomChars_loop.simps)
  qed
qed

lemma generateRandomChars_loop_set:
  "set (fst (generateRandomChars_loop i len cs res w)) \<subseteq> set res \<union> set cs"
proof (induction i len cs res w rule: generateRandomChars_loop.induct)
  case (1 i len cs res w)
  show ?case
  proof (cases "i < len")
    case True
    then show ?thesis
      using "1.IH" [OF True refl prod.collapse] set_charAt [of cs]
      by (subst generateRandomChars_loop.simps) (auto simp: split_beta)
  next
    case False
    then show ?thesis by (simp add: generateRandomChars_loop.simps)
  qed
qed

lemma generateRandomChars_loop_length:
  "valid_randoms w \<Longrightarrow> cs \<noteq> [] \<Longrightarrow>
   length (fst (generateRandomChars_loop i len cs res w)) = length res + (len - i)"
proof (induction i len cs res w rule: generateRandomChars_loop.induct)
  case (1 i len cs res w)
  show ?case
  proof (cases "i < len")
    case True
    have k: "fst (randomIndex (length cs) w) < length cs"
      using "1.prems" by (simp add: randomIndex_less)
    show ?thesis
      using "1.IH" [OF True refl prod.collapse] "1.prems" True k
      by (subst generateRandomChars_loop.simps)
         (simp add: split_beta randomIndex_valid charAt_in_range)
  next
    case False
    then show ?thesis by (simp add: generateRandomChars_loop.simps)
  qed
qed


subsection \<open>generateFallbackWord\<close>

lemma generateFallbackWord_loop_step:
  "i < len \<Longrightarrow>
   generateFallbackWord_loop i len word w =
     (let pool = (if even i then consonants else vowels);
          p = randomIndex (length pool) w
      in generateFallbackWord_loop (Suc i) len (word @ charAt pool (fst p)) (snd p))"
  by (subst generateFallbackWord_loop.simps) (simp add: split_beta Let_def even_iff_mod_2_eq_zero)

lemma generateFallbackWord_loop_done:
  "\<not> i < len \<Longrightarrow> generateFallbackWord_loop i len word w = (word, w)"
  by (subst generateFallbackWord_loop.simps) simp


lemma generateFallbackWord_loop_frame:
  "apiIndex (snd (generateFallbackWord_loop i len word w)) = apiIndex w \<and>
   network (snd (generateFallbackWord_loop i len word w)) = network w \<and>
   requests (snd (generateFallbackWord_loop i len word w)) = requests w"
proof (induction "len - i" arbitrary: i word w)
  case 0
  then show ?case by (simp add: generateFallbackWord_loop_done)
next
  case (Suc n)
  then have "i < len" and "n = len - Suc i" by simp_all
  then show ?case
    using Suc.hyps(1) by (simp add: generateFallbackWord_loop_step Let_def)
qed

lemma generateFallbackWord_loop_valid:
  "valid_randoms w \<Longrightarrow> valid_randoms (snd (generateFallbackWord_loop i len word w))"
proof (induction "len - i" arbitrary: i word w)
  case 0
  then show ?case by (simp add: generateFallbackWord_loop_done)
next
  case (Suc n)
  then have "i < len" and "n = len - Suc i" by simp_all
  then show ?case
    using Suc.hyps(1) Suc.prems by (simp add: generateFallbackWord_loop_step Let_def randomIndex_valid)
qed



lemma generateFallbackWord_frame:
  "apiIndex (snd (generateFallbackWord len w)) = apiIndex w"
  "network (snd (generateFallbackWord len w)) = network w"
  "requests (snd (generateFallbackWord len w)) = requests w"
  using generateFallbackWord_loop_frame [of 0 len "[]" w] by (simp_all add: generateFallbackWord_def)

lemma generateFallbackWord_valid:
  "valid_randoms w \<Longrightarrow> valid_randoms (snd (generateFallbackWord len w))"
  by (simp add: generateFallbackWord_def generateFallbackWord_loop_valid)



subsection \<open>generateRandomChars\<close>


lemma generateRandomChars_valid:
  "valid_randoms w \<Longrightarrow> valid_randoms (snd (generateRandomChars len cs w))"
  by (simp add: generateRandomChars_def generateRandomChars_loop_valid)

lemma generateRandomChars_set: "set (fst (generateRandomChars len cs w)) \<subseteq> set cs"
  using generateRandomChars_loop_set [of 0 len cs "[]" w] by (simp add: generateRandomChars_def)

lemma generateRandomChars_length:
  "valid_randoms w \<Longrightarrow> cs \<noteq> [] \<Longrightarrow> length (fst (generateRandomChars len cs w)) = len"
  by (simp add: generateRandomChars_def generateRandomChars_loop_length)

lemma generateRandomChars_empty: "fst (generateRandomChars len [] w) = []"
  using generateRandomChars_loop_set [of 0 len "[]" "[]" w] by (simp add: generateRandomChars_def)

subsection \<open>Word case\<close>

lemma length_toUpperCase [simp]: "length (toUpperCase s) = length s"
  by (simp add: toUpperCase_def)

lemma length_toLowerCase [simp]: "length (toLowerCase s) = length s"
  by (simp add: toLowerCase_def)



lemma randomizeCase_valid: "valid_randoms w \<Longrightarrow> valid_randoms (snd (randomizeCase s w))"
  by (induction s arbitrary: w) (simp_all add: split_beta Let_def Math_random_valid)



lemma applyWordCase_valid: "valid_randoms w \<Longrightarrow> valid_randoms (snd (applyWordCase word c w))"
  by (cases c) (simp_all add: applyWordCase_def randomizeCase_valid)

subsection \<open>One provider attempt\<close>

lemma length_WORD_APIS: "length WORD_APIS = 4"
  by (simp add: WORD_APIS_def)

lemma parser_cases:
  "api \<in> set WORD_APIS \<Longrightarrow>
   parser api = parseFirst \<or> parser api = parseRandomWord \<or> parser api = parseFirstWord"
  by (auto simp: WORD_APIS_def)

lemma parser_frame:
  assumes "api \<in> set WORD_APIS"
  shows "apiIndex (snd (parser api d w)) = apiIndex w"
    and "network (snd (parser api d w)) = network w"
    and "requests (snd (parser api d w)) = requests w"
  using parser_cases [OF assms]
  by (auto simp: parseFirst_def parseRandomWord_def parseFirstWord_def split_beta split: json.splits)

lemma parser_valid:
  assumes "api \<in> set WORD_APIS" "valid_randoms w"
  shows "valid_randoms (snd (parser api d w))"
  using parser_cases [OF assms(1)] assms(2)
  by (auto simp: parseFirst_def parseRandomWord_def parseFirstWord_def split_beta Math_random_valid
           split: json.splits)



lemma attempt_frame:
  assumes "api \<in> set WORD_APIS"
  shows "apiIndex (snd (attempt api m w)) = apiIndex w"
    and "network (snd (attempt api m w)) = network w"
    and "requests (snd (attempt api m w)) = requests w @ [url api m]"
  using assms
  by (auto simp: attempt_def fetchWithTimeout_def split_beta Let_def parser_frame
           split: sum.splits option.splits)

lemma attempt_valid:
  assumes "api \<in> set WORD_APIS" "valid_randoms w"
  shows "valid_randoms (snd (attempt api m w))"
proof -
  have "valid_randoms (w\<lparr>requests := requests w @ [url api m]\<rparr>)"
    using assms(2) by (simp add: valid_randoms_def)
  then show ?thesis
    using assms(1)
    by (auto simp: attempt_def fetchWithTimeout_def split_beta Let_def parser_valid
             split: sum.splits option.splits)
qed

lemma attempt_failing:
  "failing (network w (length (requests w)) (url api m)) \<Longrightarrow>
   fst (attempt api m w) \<noteq> Inr (Some word)"
  by (auto simp: attempt_def fetchWithTimeout_def failing_def split_beta Let_def split: sum.splits)

subsection \<open>The provider loop\<close>

lemma nth_WORD_APIS_mem: "WORD_APIS ! (c mod 4) \<in> set WORD_APIS"
  by (simp add: length_WORD_APIS)

lemma fetchRandomWord_loop_step:
  "i < 4 \<Longrightarrow>
   fetchRandomWord_loop i m w =
     (let a = attempt (WORD_APIS ! (apiIndex w mod 4)) m (w\<lparr>apiIndex := apiIndex w + 1\<rparr>) in
      case fst a of
        Inr (Some word) \<Rightarrow> (Some word, snd a)
      | _ \<Rightarrow> fetchRandomWord_loop (Suc i) m (snd a))"
  by (subst fetchRandomWord_loop.simps)
     (simp add: length_WORD_APIS split_beta Let_def split: sum.splits option.splits)

lemma fetchRandomWord_loop_done: "\<not> i < 4 \<Longrightarrow> fetchRandomWord_loop i m w = (None, w)"
  by (subst fetchRandomWord_loop.simps) (simp add: length_WORD_APIS)


lemma fetchRandomWord_loop_valid:
  "valid_randoms w \<Longrightarrow> valid_randoms (snd (fetchRandomWord_loop i m w))"
proof (induction "4 - i" arbitrary: i w)
  case 0
  then show ?case by (simp add: fetchRandomWord_loop_done)
next
  case (Suc n)
  then have i: "i < 4" and n: "n = 4 - Suc i" by simp_all
  let ?a = "attempt (WORD_APIS ! (apiIndex w mod 4)) m (w\<lparr>apiIndex := apiIndex w + 1\<rparr>)"
  have "valid_randoms (w\<lparr>apiIndex := apiIndex w + 1\<rparr>)"
    using Suc.prems by (simp add: valid_randoms_def)
  then have v: "valid_randoms (snd ?a)" by (rule attempt_valid [OF nth_WORD_APIS_mem])
  show ?case
    using i v Suc.hyps(1) [OF n v]
    by (auto simp: fetchRandomWord_loop_step Let_def split: sum.splits option.splits)
qed

lemma attemptUrls_Suc: "attemptUrls c m (Suc k) = url (WORD_APIS ! (c mod 4)) m # attemptUrls (Suc c) m k"
  by (simp add: attemptUrls_def map_upt_Suc del: upt_Suc)

lemma fetchRandomWord_loop_rotation:
  "i \<le> 4 \<Longrightarrow>
   \<exists>k. apiIndex (snd (fetchRandomWord_loop i m w)) = apiIndex w + k \<and> k \<le> 4 - i \<and>
       (fst (fetchRandomWord_loop i m w) = None \<longrightarrow> k = 4 - i) \<and>
       (fst (fetchRandomWord_loop i m w) \<noteq> None \<longrightarrow> 0 < k) \<and>
       requests (snd (fetchRandomWord_loop i m w)) = requests w @ attemptUrls (apiIndex w) m k \<and>
       network (snd (fetchRandomWord_loop i m w)) = network w"
proof (induction "4 - i" arbitrary: i w)
  case 0
  then show ?case by (simp add: fetchRandomWord_loop_done attemptUrls_def)
next
  case (Suc n)
  then have i: "i < 4" and n: "n = 4 - Suc i" and i': "Suc i \<le> 4" by simp_all
  let ?w1 = "w\<lparr>apiIndex := apiIndex w + 1\<rparr>"
  let ?a = "attempt (WORD_APIS ! (apiIndex w mod 4)) m ?w1"
  have fr: "apiIndex (snd ?a) = Suc (apiIndex w)" "network (snd ?a) = network w"
    "requests (snd ?a) = requests w @ [url (WORD_APIS ! (apiIndex w mod 4)) m]"
    using attempt_frame [OF nth_WORD_APIS_mem, of "apiIndex w" m ?w1]
    by simp_all
  show ?case
  proof (cases "\<exists>x. fst ?a = Inr (Some x)")
    case True
    then obtain x where x: "fst ?a = Inr (Some x)" by blast
    then have "fetchRandomWord_loop i m w = (Some x, snd ?a)"
      using i by (simp add: fetchRandomWord_loop_step)
    then show ?thesis
      using fr i by (intro exI [of _ 1]) (simp add: attemptUrls_def)
  next
    case False
    then have eq: "fetchRandomWord_loop i m w = fetchRandomWord_loop (Suc i) m (snd ?a)"
      using i by (auto simp: fetchRandomWord_loop_step Let_def split: sum.splits option.splits)
    from Suc.hyps(1) [OF n i', of "snd ?a"] obtain k where
      k: "apiIndex (snd (fetchRandomWord_loop (Suc i) m (snd ?a))) = apiIndex (snd ?a) + k"
         "k \<le> 4 - Suc i"
         "fst (fetchRandomWord_loop (Suc i) m (snd ?a)) = None \<longrightarrow> k = 4 - Suc i"
         "requests (snd (fetchRandomWord_loop (Suc i) m (snd ?a)))
            = requests (snd ?a) @ attemptUrls (apiIndex (snd ?a)) m k"
         "network (snd (fetchRandomWord_loop (Suc i) m (snd ?a))) = network (snd ?a)"
      by (elim exE conjE)
    show ?thesis
      using k fr i unfolding eq
      by (intro exI [of _ "Suc k"]) (auto simp: attemptUrls_Suc)
  qed
qed

subsection \<open>The word source\<close>

lemma fetchRandomWord_over_found:
  "fst (fetchRandomWord_loop 0 m w) = Some word \<Longrightarrow>
   fetchRandomWord_over d m w = (Inr word, snd (fetchRandomWord_loop 0 m w))"
  by (simp add: fetchRandomWord_over_def split_beta split: prod.splits)

lemma fetchRandomWord_over_fallback:
  assumes "fst (fetchRandomWord_loop 0 m w) = None"
  shows "fetchRandomWord_over d m w =
     (let validWords = filter (\<lambda>word. length word \<le> m) d;
          p = randomIndex (length validWords) (snd (fetchRandomWord_loop 0 m w))
      in if fst p < length validWords \<and> validWords ! fst p \<noteq> []
         then (Inr (validWords ! fst p), snd p)
         else (Inr (fst (generateFallbackWord m (snd p))), snd (generateFallbackWord m (snd p))))"
  using assms
  by (auto simp: fetchRandomWord_over_def split_beta Let_def elementAt_def split: prod.splits)


lemma fetchRandomWord_over_valid:
  assumes "valid_randoms w"
  shows "valid_randoms (snd (fetchRandomWord_over d m w))"
proof (cases "fst (fetchRandomWord_loop 0 m w)")
  case None
  have "valid_randoms (snd (fetchRandomWord_loop 0 m w))"
    using assms by (rule fetchRandomWord_loop_valid)
  then show ?thesis
    by (simp add: fetchRandomWord_over_fallback [OF None] Let_def randomIndex_valid
        generateFallbackWord_valid)
next
  case (Some word)
  then show ?thesis
    using assms by (simp add: fetchRandomWord_over_found fetchRandomWord_loop_valid)
qed

lemma fetchRandomWord_over_rotation:
  "\<exists>k. 0 < k \<and> k \<le> 4 \<and>
       apiIndex (snd (fetchRandomWord_over d m w)) = apiIndex w + k \<and>
       (fst (fetchRandomWord_loop 0 m w) = None \<longrightarrow> k = 4) \<and>
       requests (snd (fetchRandomWord_over d m w)) = requests w @ attemptUrls (apiIndex w) m k \<and>
       network (snd (fetchRandomWord_over d m w)) = network w"
proof -
  from fetchRandomWord_loop_rotation [of 0 m w] obtain k where
    k: "apiIndex (snd (fetchRandomWord_loop 0 m w)) = apiIndex w + k" "k \<le> 4"
       "fst (fetchRandomWord_loop 0 m w) = None \<longrightarrow> k = 4"
       "fst (fetchRandomWord_loop 0 m w) \<noteq> None \<longrightarrow> 0 < k"
       "requests (snd (fetchRandomWord_loop 0 m w)) = requests w @ attemptUrls (apiIndex w) m k"
       "network (snd (fetchRandomWord_loop 0 m w)) = network w"
    by auto
  show ?thesis
  proof (cases "fst (fetchRandomWord_loop 0 m w)")
    case None
    then show ?thesis
      using k
      by (intro exI [of _ k])
         (simp add: fetchRandomWord_over_fallback [OF None] Let_def generateFallbackWord_frame)
  next
    case (Some word)
    then show ?thesis
      using k by (intro exI [of _ k]) (simp add: fetchRandomWord_over_found)
  qed
qed

lemma all_failing_loop:
  "\<forall>n u. failing (network w n u) \<Longrightarrow> fst (fetchRandomWord_loop i m w) = None"
proof (induction "4 - i" arbitrary: i w)
  case 0
  then show ?case by (simp add: fetchRandomWord_loop_done)
next
  case (Suc n)
  then have i: "i < 4" and n: "n = 4 - Suc i" by simp_all
  let ?w1 = "w\<lparr>apiIndex := apiIndex w + 1\<rparr>"
  let ?a = "attempt (WORD_APIS ! (apiIndex w mod 4)) m ?w1"
  have "failing (network ?w1 (length (requests ?w1)) (url (WORD_APIS ! (apiIndex w mod 4)) m))"
    using Suc.prems by simp
  then have no: "\<And>x. fst ?a \<noteq> Inr (Some x)" by (rule attempt_failing)
  have "network (snd ?a) = network w"
    using attempt_frame(2) [OF nth_WORD_APIS_mem, of "apiIndex w" m ?w1] by simp
  then have "fst (fetchRandomWord_loop (Suc i) m (snd ?a)) = None"
    using Suc.hyps(1) [OF n, of "snd ?a"] Suc.prems by simp
  then show ?case
    using i no by (auto simp: fetchRandomWord_loop_step Let_def split: sum.splits option.splits)
qed

lemma offline_valid: "0 \<le> r \<Longrightarrow> r < 1 \<Longrightarrow> valid_randoms (offline r)"
  by (simp add: valid_randoms_def offline_def)

lemma offline_failing: "\<forall>n u. failing (network (offline r) n u)"
  by (simp add: failing_def offline_def)

subsection \<open>The composer\<close>

lemma alphabet_lengths:
  "length lower = 26" "length upper = 26" "length numbers = 10" "length symbols = 30"
  by (simp_all add: lower_def upper_def numbers_def symbols_def)

lemma charSetOf_concat:
  "charSetOf opts =
     (if opt_lower opts then lower else []) @ (if opt_upper opts then upper else []) @
     (if opt_numbers opts then numbers else []) @ (if opt_symbols opts then symbols else [])"
  by (simp add: charSetOf_def)

lemma charSetOf_nonempty:
  "opt_lower opts \<or> opt_upper opts \<or> opt_numbers opts \<or> opt_symbols opts \<Longrightarrow> charSetOf opts \<noteq> []"
  using alphabet_lengths by (auto simp: charSetOf_concat)


lemma generatePassword_chars:
  "\<not> opt_word opts \<Longrightarrow> charSetOf opts \<noteq> [] \<Longrightarrow>
   generatePassword len opts wordCase w =
     (Inr (fst (generateRandomChars len (charSetOf opts) w)),
      snd (generateRandomChars len (charSetOf opts) w))"
  by (simp add: generatePassword_def Let_def split_beta)






subsection \<open>Consecutive calls\<close>

lemma fetchRandomWord_all_failing:
  assumes "\<forall>n u. failing (network w n u)"
  shows "apiIndex (snd (fetchRandomWord m w)) = apiIndex w + 4"
    and "requests (snd (fetchRandomWord m w)) = requests w @ attemptUrls (apiIndex w) m 4"
    and "network (snd (fetchRandomWord m w)) = network w"
  using fetchRandomWord_over_rotation [of localWords m w] all_failing_loop [OF assms, of 0 m]
  by (auto simp: fetchRandomWord_def)

lemma length_attemptUrls [simp]: "length (attemptUrls c m k) = k"
  by (simp add: attemptUrls_def)

lemma fetchRandomWords_all_failing:
  "\<forall>n u. failing (network w n u) \<Longrightarrow> apiIndex w = length (requests w) \<Longrightarrow>
   network (fetchRandomWords ms w) = network w \<and>
   apiIndex (fetchRandomWords ms w) = length (requests (fetchRandomWords ms w)) \<and>
   length (requests (fetchRandomWords ms w)) = length (requests w) + 4 * length ms"
proof (induction ms arbitrary: w)
  case Nil
  then show ?case by simp
next
  case (Cons m ms)
  let ?w = "snd (fetchRandomWord m w)"
  note f = fetchRandomWord_all_failing [OF Cons.prems(1), of m]
  have "\<forall>n u. failing (network ?w n u)" using Cons.prems(1) f(3) by simp
  moreover have "apiIndex ?w = length (requests ?w)" using Cons.prems(2) f(1,2) by simp
  ultimately show ?case using Cons.IH [of ?w] f by simp
qed

subsection \<open>The dictionary fallback\<close>

lemma in_filterD: "x \<in> set (filter P xs) \<Longrightarrow> P x"
  by simp

lemma localWords_min: "word \<in> set localWords \<Longrightarrow> 4 \<le> length word"
  unfolding localWords_def by (erule in_filterD)

lemma localWords_variant_min: "word \<in> set localWords_variant \<Longrightarrow> 4 \<le> length word"
  unfolding localWords_variant_def by (erule in_filterD)

lemma localWords_echo: "''echo'' \<in> set localWords" "''echo'' \<in> set localWords_variant"
  by (simp_all add: localWords_def localWords_variant_def)


lemma fetchRandomWord_over_dictionary:
  assumes v: "valid_randoms w"
    and none: "fst (fetchRandomWord_loop 0 m w) = None"
    and d: "\<forall>word\<in>set d. word \<noteq> []"
    and ne: "filter (\<lambda>word. length word \<le> m) d \<noteq> []"
  shows "nat \<lfloor>randoms (snd (fetchRandomWord_loop 0 m w)) 0
               * real (length (filter (\<lambda>word. length word \<le> m) d))\<rfloor>
           < length (filter (\<lambda>word. length word \<le> m) d)"
    and "fetchRandomWord_over d m w =
           (Inr (filter (\<lambda>word. length word \<le> m) d !
                   nat \<lfloor>randoms (snd (fetchRandomWord_loop 0 m w)) 0
                         * real (length (filter (\<lambda>word. length word \<le> m) d))\<rfloor>),
            snd (Math_random (snd (fetchRandomWord_loop 0 m w))))"
proof -
  let ?w1 = "snd (fetchRandomWord_loop 0 m w)"
  let ?vw = "filter (\<lambda>word. length word \<le> m) d"
  let ?k = "nat \<lfloor>randoms ?w1 0 * real (length ?vw)\<rfloor>"
  have v1: "valid_randoms ?w1" using v by (rule fetchRandomWord_loop_valid)
  have p: "randomIndex (length ?vw) ?w1 = (?k, snd (Math_random ?w1))"
    by (simp add: randomIndex_def Math_random_def)
  have "fst (randomIndex (length ?vw) ?w1) < length ?vw"
    using v1 ne by (simp add: randomIndex_less)
  then show k: "?k < length ?vw" by (simp add: p)
  then have "?vw ! ?k \<in> set ?vw" by (rule nth_mem)
  then have "?vw ! ?k \<noteq> []" using d by simp
  then show "fetchRandomWord_over d m w = (Inr (?vw ! ?k), snd (Math_random ?w1))"
    using k by (simp add: fetchRandomWord_over_fallback [OF none] Let_def p)
qed

lemma fetchRandomWord_over_synthetic:
  assumes none: "fst (fetchRandomWord_loop 0 m w) = None"
    and e: "filter (\<lambda>word. length word \<le> m) d = []"
  shows "fetchRandomWord_over d m w =
           (Inr (fst (generateFallbackWord m (snd (Math_random (snd (fetchRandomWord_loop 0 m w)))))),
            snd (generateFallbackWord m (snd (Math_random (snd (fetchRandomWord_loop 0 m w))))))"
  by (simp add: fetchRandomWord_over_fallback [OF none] Let_def e randomIndex_def split_beta)

subsection \<open>The shortest dictionary entries\<close>

lemma filter_short_empty:
  assumes "\<forall>word\<in>set d. 4 \<le> length word" and "m < 4"
  shows "filter (\<lambda>word. length word \<le> m) d = []"
  using assms by (fastforce simp: filter_empty_conv)

lemma filter_long_nonempty:
  assumes "word \<in> set d" "length word = 4" and "4 \<le> m"
  shows "filter (\<lambda>word. length word \<le> m) d \<noteq> []"
  using assms by (fastforce simp: filter_empty_conv)

lemma fetchRandomWord_over_by_length:
  assumes v: "valid_randoms w"
    and none: "fst (fetchRandomWord_loop 0 m w) = None"
    and d4: "\<forall>word\<in>set d. 4 \<le> length word"
    and x: "x \<in> set d" "length x = 4"
  shows "4 \<le> m \<Longrightarrow>
         \<exists>word\<in>set d. length word \<le> m \<and>
           fetchRandomWord_over d m w = (Inr word, snd (Math_random (snd (fetchRandomWord_loop 0 m w))))"
    and "m < 4 \<Longrightarrow>
         fetchRandomWord_over d m w =
           (Inr (fst (generateFallbackWord m (snd (Math_random (snd (fetchRandomWord_loop 0 m w)))))),
            snd (generateFallbackWord m (snd (Math_random (snd (fetchRandomWord_loop 0 m w))))))"
proof -
  let ?vw = "filter (\<lambda>word. length word \<le> m) d"
  let ?k = "nat \<lfloor>randoms (snd (fetchRandomWord_loop 0 m w)) 0 * real (length ?vw)\<rfloor>"
  have d: "\<forall>word\<in>set d. word \<noteq> []" using d4 by fastforce
  {
    assume "4 \<le> m"
    then have ne: "?vw \<noteq> []" by (rule filter_long_nonempty [OF x])
    note t = fetchRandomWord_over_dictionary [OF v none d ne]
    have "?vw ! ?k \<in> set ?vw" using t(1) by (rule nth_mem)
    then have "?vw ! ?k \<in> set d" "length (?vw ! ?k) \<le> m" by simp_all
    then show "\<exists>word\<in>set d. length word \<le> m \<and>
           fetchRandomWord_over d m w = (Inr word, snd (Math_random (snd (fetchRandomWord_loop 0 m w))))"
      using t(2) by blast
  }
  {
    assume "m < 4"
    then have "?vw = []" by (rule filter_short_empty [OF d4])
    then show "fetchRandomWord_over d m w =
           (Inr (fst (generateFallbackWord m (snd (Math_random (snd (fetchRandomWord_loop 0 m w)))))),
            snd (generateFallbackWord m (snd (Math_random (snd (fetchRandomWord_loop 0 m w))))))"
      by (rule fetchRandomWord_over_synthetic [OF none])
  }
qed

subsection \<open>The cipher\<close>

lemma mod26_shift_back:
  fixes a s :: int
  assumes "0 \<le> a" "a < 26"
  shows "((a + s) mod 26 + (26 - s)) mod 26 = a"
proof -
  have "((a + s) mod 26 + (26 - s)) mod 26 = ((a + s) + (26 - s)) mod 26"
    by (rule mod_add_left_eq)
  also have "\<dots> = (a + 26) mod 26" by simp
  also have "\<dots> = a mod 26" by (rule mod_add_self2)
  also have "\<dots> = a" using assms by simp
  finally show ?thesis .
qed

lemma smod_nonneg: "0 \<le> a \<Longrightarrow> a smod 26 = a mod (26::int)"
  by (cases "a = 0") (simp_all add: smod_int_alt_def)

lemma charCodeAt0_range: "0 \<le> charCodeAt0 c \<and> charCodeAt0 c < 256"
proof -
  have "(of_char c :: int) mod 256 = of_char c" by simp
  then show ?thesis
    using pos_mod_sign [of 256 "of_char c :: int"] pos_mod_bound [of 256 "of_char c :: int"]
    by (simp add: charCodeAt0_def)
qed

lemma charCodeAt0_fromCharCode: "0 \<le> n \<Longrightarrow> n < 256 \<Longrightarrow> charCodeAt0 (fromCharCode n) = n"
  by (simp add: charCodeAt0_def fromCharCode_def)

lemma fromCharCode_charCodeAt0: "fromCharCode (charCodeAt0 c) = c"
  by (simp add: charCodeAt0_def fromCharCode_def)

lemma charCodeAt0_inject: "charCodeAt0 c = charCodeAt0 d \<Longrightarrow> c = d"
  by (simp add: charCodeAt0_def)

lemma not_both_cases: "isUpperLetter c \<Longrightarrow> \<not> isLowerLetter c"
  by (simp add: isUpperLetter_def isLowerLetter_def)

lemma caesarChar_lower:
  assumes "isLowerLetter c" "0 \<le> s"
  shows "charCodeAt0 (caesarChar s c) = 97 + (charCodeAt0 c - 97 + s) mod 26"
proof -
  have "0 \<le> charCodeAt0 c - 97 + s + 26" using assms by (simp add: isLowerLetter_def)
  then have "caesarChar s c = fromCharCode ((charCodeAt0 c - 97 + s + 26) mod 26 + 97)"
    using assms(1) by (simp add: caesarChar_def smod_nonneg)
  moreover have "(charCodeAt0 c - 97 + s + 26) mod 26 = (charCodeAt0 c - 97 + s) mod 26"
    by (rule mod_add_self2)
  moreover have "0 \<le> (charCodeAt0 c - 97 + s) mod 26" "(charCodeAt0 c - 97 + s) mod 26 < 26"
    by simp_all
  ultimately show ?thesis by (simp add: charCodeAt0_fromCharCode)
qed

lemma caesarChar_upper:
  assumes "isUpperLetter c" "0 \<le> s"
  shows "charCodeAt0 (caesarChar s c) = 65 + (charCodeAt0 c - 65 + s) mod 26"
proof -
  have "0 \<le> charCodeAt0 c - 65 + s + 26" using assms by (simp add: isUpperLetter_def)
  then have "caesarChar s c = fromCharCode ((charCodeAt0 c - 65 + s + 26) mod 26 + 65)"
    using assms(1) not_both_cases [OF assms(1)] by (simp add: caesarChar_def smod_nonneg)
  moreover have "(charCodeAt0 c - 65 + s + 26) mod 26 = (charCodeAt0 c - 65 + s) mod 26"
    by (rule mod_add_self2)
  moreover have "0 \<le> (charCodeAt0 c - 65 + s) mod 26" "(charCodeAt0 c - 65 + s) mod 26 < 26"
    by simp_all
  ultimately show ?thesis by (simp add: charCodeAt0_fromCharCode)
qed

lemma caesarChar_keeps_lower: "isLowerLetter c \<Longrightarrow> 0 \<le> s \<Longrightarrow> isLowerLetter (caesarChar s c)"
  using pos_mod_bound [of 26 "charCodeAt0 c - 97 + s"] pos_mod_sign [of 26 "charCodeAt0 c - 97 + s"]
  by (simp add: isLowerLetter_def [of "caesarChar s c"] caesarChar_lower)

lemma caesarChar_keeps_upper: "isUpperLetter c \<Longrightarrow> 0 \<le> s \<Longrightarrow> isUpperLetter (caesarChar s c)"
  using pos_mod_bound [of 26 "charCodeAt0 c - 65 + s"] pos_mod_sign [of 26 "charCodeAt0 c - 65 + s"]
  by (simp add: isUpperLetter_def [of "caesarChar s c"] caesarChar_upper)

lemma caesarChar_round_trip:
  assumes "isLowerLetter c \<or> isUpperLetter c" "1 \<le> s" "s \<le> 25"
  shows "caesarChar (26 - s) (caesarChar s c) = c"
proof (rule charCodeAt0_inject)
  have s: "0 \<le> s" "0 \<le> 26 - s" using assms by simp_all
  show "charCodeAt0 (caesarChar (26 - s) (caesarChar s c)) = charCodeAt0 c"
    using assms(1)
  proof
    assume l: "isLowerLetter c"
    then have "0 \<le> charCodeAt0 c - 97" "charCodeAt0 c - 97 < 26" by (simp_all add: isLowerLetter_def)
    then have "((charCodeAt0 c - 97 + s) mod 26 + (26 - s)) mod 26 = charCodeAt0 c - 97"
      by (intro mod26_shift_back)
    then show ?thesis
      by (simp add: caesarChar_lower [OF caesarChar_keeps_lower [OF l s(1)] s(2)]
          caesarChar_lower [OF l s(1)])
  next
    assume u: "isUpperLetter c"
    then have "0 \<le> charCodeAt0 c - 65" "charCodeAt0 c - 65 < 26" by (simp_all add: isUpperLetter_def)
    then have "((charCodeAt0 c - 65 + s) mod 26 + (26 - s)) mod 26 = charCodeAt0 c - 65"
      by (intro mod26_shift_back)
    then show ?thesis
      by (simp add: caesarChar_upper [OF caesarChar_keeps_upper [OF u s(1)] s(2)]
          caesarChar_upper [OF u s(1)])
  qed
qed

lemma length_caesarCipher [simp]: "length (caesarCipher text s) = length text"
  by (simp add: caesarCipher_def)

subsection \<open>The alphabets by character code\<close>

lemma indexOf_nth: "k < length xs \<Longrightarrow> distinct xs \<Longrightarrow> indexOf xs (xs ! k) = k"
proof (induction xs arbitrary: k)
  case Nil
  then show ?case by simp
next
  case (Cons y ys)
  show ?case
  proof (cases k)
    case 0
    then show ?thesis by simp
  next
    case (Suc j)
    then have j: "j < length ys" using Cons.prems(1) by simp
    then have "ys ! j \<in> set ys" by (rule nth_mem)
    then have "ys ! j \<noteq> y" using Cons.prems(2) by auto
    then show ?thesis using Suc Cons.IH [OF j] Cons.prems(2) by simp
  qed
qed

lemma lower_by_code: "lower = map (\<lambda>n. fromCharCode (97 + int n)) [0..<26]"
  by code_simp

lemma upper_by_code: "upper = map (\<lambda>n. fromCharCode (65 + int n)) [0..<26]"
  by code_simp

lemma alphabet_nth:
  assumes "xs = map (\<lambda>n. fromCharCode (b + int n)) [0..<26]" "n < 26"
  shows "xs ! n = fromCharCode (b + int n)"
  using assms by simp

lemma alphabet_distinct:
  assumes "xs = map (\<lambda>n. fromCharCode (b + int n)) [0..<26]" "0 \<le> b" "b + 25 < 256"
  shows "distinct xs"
proof -
  have "inj_on (\<lambda>n. fromCharCode (b + int n)) (set [0..<26])"
  proof (rule inj_onI)
    fix m n :: nat
    assume m: "m \<in> set [0..<26]" and n: "n \<in> set [0..<26]"
      and e: "fromCharCode (b + int m) = fromCharCode (b + int n)"
    have cm: "charCodeAt0 (fromCharCode (b + int m)) = b + int m"
      using m assms(2,3) by (intro charCodeAt0_fromCharCode) simp_all
    have cn: "charCodeAt0 (fromCharCode (b + int n)) = b + int n"
      using n assms(2,3) by (intro charCodeAt0_fromCharCode) simp_all
    have "charCodeAt0 (fromCharCode (b + int m)) = charCodeAt0 (fromCharCode (b + int n))"
      by (rule arg_cong [OF e])
    then have "b + int m = b + int n" by (simp only: cm cn)
    then show "m = n" by simp
  qed
  then show ?thesis unfolding assms(1) by (simp add: distinct_map)
qed

lemma alphabet_member:
  assumes xs: "xs = map (\<lambda>n. fromCharCode (b + int n)) [0..<26]" and b: "0 \<le> b" "b + 25 < 256"
  shows "(c \<in> set xs) = (b \<le> charCodeAt0 c \<and> charCodeAt0 c \<le> b + 25)"
proof
  assume "c \<in> set xs"
  then obtain n where n: "n < 26" "c = fromCharCode (b + int n)" unfolding xs by auto
  have "charCodeAt0 c = b + int n"
    unfolding n(2) using n(1) b by (intro charCodeAt0_fromCharCode) simp_all
  then show "b \<le> charCodeAt0 c \<and> charCodeAt0 c \<le> b + 25" using n(1) by simp
next
  assume r: "b \<le> charCodeAt0 c \<and> charCodeAt0 c \<le> b + 25"
  let ?n = "nat (charCodeAt0 c - b)"
  have "?n < 26" using r by linarith
  moreover have "b + int ?n = charCodeAt0 c" using r by linarith
  then have "fromCharCode (b + int ?n) = c" by (simp only: fromCharCode_charCodeAt0)
  ultimately show "c \<in> set xs" unfolding xs by force
qed

lemma alphabet_indexOf:
  assumes xs: "xs = map (\<lambda>n. fromCharCode (b + int n)) [0..<26]" and b: "0 \<le> b" "b + 25 < 256"
    and r: "b \<le> charCodeAt0 c" "charCodeAt0 c \<le> b + 25"
  shows "indexOf xs c = nat (charCodeAt0 c - b)"
proof -
  let ?n = "nat (charCodeAt0 c - b)"
  have n: "?n < length xs" using r by (simp add: xs)
  have "xs ! ?n = fromCharCode (b + int ?n)" using r by (intro alphabet_nth [OF xs]) simp
  then have "xs ! ?n = c" using r by (simp add: fromCharCode_charCodeAt0)
  then show ?thesis using indexOf_nth [OF n alphabet_distinct [OF xs b]] by simp
qed

lemma lower_member: "(c \<in> set lower) = isLowerLetter c"
  using alphabet_member [OF lower_by_code, of c] by (simp add: isLowerLetter_def)

lemma upper_member: "(c \<in> set upper) = isUpperLetter c"
  using alphabet_member [OF upper_by_code, of c] by (simp add: isUpperLetter_def)

lemma encode_char_spec_lower:
  assumes l: "isLowerLetter c" and s: "0 \<le> s"
  shows "encode_char_spec s c = caesarChar s c"
proof (rule charCodeAt0_inject)
  let ?x = "charCodeAt0 c"
  have r: "97 \<le> ?x" "?x \<le> 97 + 25" using l by (simp_all add: isLowerLetter_def)
  have i: "indexOf lower c = nat (?x - 97)"
    using r by (intro alphabet_indexOf [OF lower_by_code]) simp_all
  let ?k = "(nat (?x - 97) + nat s) mod 26"
  have k: "int ?k = (?x - 97 + s) mod 26" using r s by (simp add: zmod_int)
  have "encode_char_spec s c = lower ! ?k"
    using l by (simp add: encode_char_spec_def lower_member i)
  also have "\<dots> = fromCharCode (97 + int ?k)"
    by (intro alphabet_nth [OF lower_by_code]) simp
  finally have "charCodeAt0 (encode_char_spec s c) = 97 + int ?k"
    by (simp add: charCodeAt0_fromCharCode)
  then show "charCodeAt0 (encode_char_spec s c) = charCodeAt0 (caesarChar s c)"
    by (simp only: k caesarChar_lower [OF l s])
qed

lemma encode_char_spec_upper:
  assumes u: "isUpperLetter c" and s: "0 \<le> s"
  shows "encode_char_spec s c = caesarChar s c"
proof (rule charCodeAt0_inject)
  let ?x = "charCodeAt0 c"
  have r: "65 \<le> ?x" "?x \<le> 65 + 25" using u by (simp_all add: isUpperLetter_def)
  have i: "indexOf upper c = nat (?x - 65)"
    using r by (intro alphabet_indexOf [OF upper_by_code]) simp_all
  let ?k = "(nat (?x - 65) + nat s) mod 26"
  have k: "int ?k = (?x - 65 + s) mod 26" using r s by (simp add: zmod_int)
  have "encode_char_spec s c = upper ! ?k"
    using u not_both_cases [OF u] by (simp add: encode_char_spec_def lower_member upper_member i)
  also have "\<dots> = fromCharCode (65 + int ?k)"
    by (intro alphabet_nth [OF upper_by_code]) simp
  finally have "charCodeAt0 (encode_char_spec s c) = 65 + int ?k"
    by (simp add: charCodeAt0_fromCharCode)
  then show "charCodeAt0 (encode_char_spec s c) = charCodeAt0 (caesarChar s c)"
    by (simp only: k caesarChar_upper [OF u s])
qed

lemma encode_char_spec_other:
  "\<not> isLowerLetter c \<Longrightarrow> \<not> isUpperLetter c \<Longrightarrow> encode_char_spec s c = c"
  by (simp add: encode_char_spec_def lower_member upper_member)

subsection \<open>Passwords are not empty\<close>




section \<open>The claims\<close>



text \<open>
  C2. With at least one character class enabled and word inclusion disabled,
  \<open>generatePassword\<close> resolves to a string of exactly the requested length, every
  character of which belongs to the character set, and the character set is the
  concatenation of the enabled alphabets in the order lower, upper, numbers, symbols. With
  all four classes it is the 92-character alphabet (26 + 26 + 10 + 30); the case of length
  16 is the instance \<open>len = 16\<close>.
\<close>

theorem generatePassword_chars_only:
  assumes "valid_randoms w"
    and "opt_lower opts \<or> opt_upper opts \<or> opt_numbers opts \<or> opt_symbols opts"
    and "\<not> opt_word opts"
  shows "(\<exists>pw. fst (generatePassword len opts wordCase w) = Inr pw \<and> length pw = len \<and>
              set pw \<subseteq> set (charSetOf opts)) \<and>
         charSetOf opts =
           (if opt_lower opts then lower else []) @ (if opt_upper opts then upper else []) @
           (if opt_numbers opts then numbers else []) @ (if opt_symbols opts then symbols else []) \<and>
         (opt_lower opts \<and> opt_upper opts \<and> opt_numbers opts \<and> opt_symbols opts \<longrightarrow>
            charSetOf opts = lower @ upper @ numbers @ symbols \<and> length (charSetOf opts) = 92 \<and>
            length lower = 26 \<and> length upper = 26 \<and> length numbers = 10 \<and> length symbols = 30)"
proof -
  have ne: "charSetOf opts \<noteq> []" using assms(2) by (rule charSetOf_nonempty)
  have "length (fst (generateRandomChars len (charSetOf opts) w)) = len"
    using assms(1) ne by (rule generateRandomChars_length)
  moreover have "set (fst (generateRandomChars len (charSetOf opts) w)) \<subseteq> set (charSetOf opts)"
    by (rule generateRandomChars_set)
  ultimately have "\<exists>pw. fst (generatePassword len opts wordCase w) = Inr pw \<and> length pw = len \<and>
      set pw \<subseteq> set (charSetOf opts)"
    using assms(3) ne by (simp add: generatePassword_chars)
  moreover have "opt_lower opts \<and> opt_upper opts \<and> opt_numbers opts \<and> opt_symbols opts \<longrightarrow>
      charSetOf opts = lower @ upper @ numbers @ symbols \<and> length (charSetOf opts) = 92"
    by (simp add: charSetOf_concat alphabet_lengths)
  ultimately show ?thesis
    using charSetOf_concat [of opts] alphabet_lengths by blast
qed

theorem generatePassword_chars_only_witness:
  "fst (generatePassword 16
      \<lparr>opt_lower = True, opt_upper = True, opt_numbers = True, opt_symbols = True, opt_word = False\<rparr>
      Lower (offline (3/4))) = Inr ''****************'' \<and>
   (\<exists>pw. fst (generatePassword 16
      \<lparr>opt_lower = True, opt_upper = True, opt_numbers = True, opt_symbols = True, opt_word = False\<rparr>
      Lower (offline (3/4))) = Inr pw \<and> length pw = 16 \<and>
      set pw \<subseteq> set (lower @ upper @ numbers @ symbols)) \<and>
   length (lower @ upper @ numbers @ symbols) = 92"
proof -
  let ?opts = "\<lparr>opt_lower = True, opt_upper = True, opt_numbers = True, opt_symbols = True,
                 opt_word = False\<rparr>"
  have v: "valid_randoms (offline (3/4))" by (simp add: offline_valid)
  have h1: "opt_lower ?opts \<or> opt_upper ?opts \<or> opt_numbers ?opts \<or> opt_symbols ?opts" by simp
  have h2: "\<not> opt_word ?opts" by simp
  have h3: "opt_lower ?opts \<and> opt_upper ?opts \<and> opt_numbers ?opts \<and> opt_symbols ?opts" by simp
  have e: "fst (generatePassword 16 ?opts Lower (offline (3/4))) = Inr ''****************''"
    by code_simp
  note t = generatePassword_chars_only [OF v h1 h2, of 16 Lower]
  from t h3 have c: "charSetOf ?opts = lower @ upper @ numbers @ symbols"
    and l: "length (charSetOf ?opts) = 92" by blast+
  from t have "\<exists>pw. fst (generatePassword 16 ?opts Lower (offline (3/4))) = Inr pw \<and>
      length pw = 16 \<and> set pw \<subseteq> set (charSetOf ?opts)" by blast
  then show ?thesis using e l unfolding c by blast
qed








text \<open>
  C5. The rotation over the four providers. Within one call of \<open>fetchRandomWord\<close>,
  attempt \<open>j\<close> (from 0) requests the URL of provider \<open>(c + j) mod 4\<close>, where \<open>c\<close> is
  the cursor at entry, and the cursor has advanced by one per attempt at exit; when every
  provider fails there are four attempts. Across consecutive calls in which all providers
  fail, starting where the cursor equals the number of attempts made so far (as at the
  start of the program, where both are 0), that equality is kept, each call adds four
  attempts, and the next call starts at provider (attempts made so far) mod 4.
\<close>

theorem fetchRandomWord_round_robin:
  "(\<exists>k. 0 < k \<and> k \<le> 4 \<and>
        apiIndex (snd (fetchRandomWord m w)) = apiIndex w + k \<and>
        requests (snd (fetchRandomWord m w)) =
          requests w @ map (\<lambda>j. url (WORD_APIS ! ((apiIndex w + j) mod 4)) m) [0..<k] \<and>
        ((\<forall>n u. failing (network w n u)) \<longrightarrow> k = 4)) \<and>
   (apiIndex w = length (requests w) \<and> (\<forall>n u. failing (network w n u)) \<longrightarrow>
      apiIndex (fetchRandomWords ms w) = length (requests (fetchRandomWords ms w)) \<and>
      length (requests (fetchRandomWords ms w)) = length (requests w) + 4 * length ms \<and>
      requests (snd (fetchRandomWord m (fetchRandomWords ms w))) =
        requests (fetchRandomWords ms w) @
        map (\<lambda>j. url (WORD_APIS ! ((length (requests (fetchRandomWords ms w)) + j) mod 4)) m) [0..<4])"
proof (intro conjI impI)
  from fetchRandomWord_over_rotation [of localWords m w] obtain k where
    k: "0 < k" "k \<le> 4" "apiIndex (snd (fetchRandomWord m w)) = apiIndex w + k"
       "fst (fetchRandomWord_loop 0 m w) = None \<longrightarrow> k = 4"
       "requests (snd (fetchRandomWord m w)) = requests w @ attemptUrls (apiIndex w) m k"
    unfolding fetchRandomWord_def by (elim exE conjE)
  have "(\<forall>n u. failing (network w n u)) \<longrightarrow> k = 4"
  proof
    assume "\<forall>n u. failing (network w n u)"
    then have "fst (fetchRandomWord_loop 0 m w) = None" by (rule all_failing_loop)
    then show "k = 4" using k(4) by simp
  qed
  then show "\<exists>k. 0 < k \<and> k \<le> 4 \<and>
        apiIndex (snd (fetchRandomWord m w)) = apiIndex w + k \<and>
        requests (snd (fetchRandomWord m w)) =
          requests w @ map (\<lambda>j. url (WORD_APIS ! ((apiIndex w + j) mod 4)) m) [0..<k] \<and>
        ((\<forall>n u. failing (network w n u)) \<longrightarrow> k = 4)"
    using k(1,2,3,5) unfolding attemptUrls_def by (intro exI [of _ k]) simp
next
  assume a: "apiIndex w = length (requests w) \<and> (\<forall>n u. failing (network w n u))"
  note s = fetchRandomWords_all_failing [of w ms]
  show "apiIndex (fetchRandomWords ms w) = length (requests (fetchRandomWords ms w))"
    using a s by simp
  show "length (requests (fetchRandomWords ms w)) = length (requests w) + 4 * length ms"
    using a s by simp
  have "\<forall>n u. failing (network (fetchRandomWords ms w) n u)" using a s by simp
  from fetchRandomWord_all_failing(2) [OF this, of m]
  show "requests (snd (fetchRandomWord m (fetchRandomWords ms w))) =
        requests (fetchRandomWords ms w) @
        map (\<lambda>j. url (WORD_APIS ! ((length (requests (fetchRandomWords ms w)) + j) mod 4)) m) [0..<4]"
    using a s unfolding attemptUrls_def by simp
qed

theorem fetchRandomWord_round_robin_witness:
  "apiIndex (offline (1/2)) = length (requests (offline (1/2))) \<and>
   (\<forall>n u. failing (network (offline (1/2)) n u)) \<and>
   length (requests (fetchRandomWords [8, 3] (offline (1/2)))) = 8 \<and>
   requests (snd (fetchRandomWord 5 (fetchRandomWords [8, 3] (offline (1/2))))) =
     requests (fetchRandomWords [8, 3] (offline (1/2))) @
     map (\<lambda>j. url (WORD_APIS ! ((length (requests (fetchRandomWords [8, 3] (offline (1/2)))) + j) mod 4)) 5) [0..<4] \<and>
   requests (snd (fetchRandomWord 5 (offline (1/2)))) =
     [''https://random-word-api.herokuapp.com/word?number=1&length=5'',
      ''https://api.datamuse.com/words?sp=?????&max=10'',
      ''https://api.wordnik.com/v4/words.json/randomWords?limit=1&minLength=5&maxLength=5&api_key=YOUR_API_KEY'',
      ''https://random-word-form.herokuapp.com/random/noun?length=5''] \<and>
   requests (fetchRandomWords [5, 5] (answering (JArray [Obj (Some ''tree'')]) (1/2))) =
     [''https://random-word-api.herokuapp.com/word?number=1&length=5'',
      ''https://api.datamuse.com/words?sp=?????&max=10'',
      ''https://api.wordnik.com/v4/words.json/randomWords?limit=1&minLength=5&maxLength=5&api_key=YOUR_API_KEY'']"
proof -
  have h1: "apiIndex (offline (1/2)) = length (requests (offline (1/2)))"
    by (simp add: offline_def)
  have h2: "\<forall>n u. failing (network (offline (1/2)) n u)" by (rule offline_failing)
  note t = fetchRandomWord_round_robin [of 5 "offline (1/2)" "[8, 3]", THEN conjunct2, rule_format, OF conjI [OF h1 h2]]
  have l: "length (requests (fetchRandomWords [8, 3] (offline (1/2)))) = 8"
    using t h1 by (simp add: offline_def)
  have a: "requests (snd (fetchRandomWord 5 (offline (1/2)))) =
     [''https://random-word-api.herokuapp.com/word?number=1&length=5'',
      ''https://api.datamuse.com/words?sp=?????&max=10'',
      ''https://api.wordnik.com/v4/words.json/randomWords?limit=1&minLength=5&maxLength=5&api_key=YOUR_API_KEY'',
      ''https://random-word-form.herokuapp.com/random/noun?length=5'']"
    by code_simp
  have b: "requests (fetchRandomWords [5, 5] (answering (JArray [Obj (Some ''tree'')]) (1/2))) =
     [''https://random-word-api.herokuapp.com/word?number=1&length=5'',
      ''https://api.datamuse.com/words?sp=?????&max=10'',
      ''https://api.wordnik.com/v4/words.json/randomWords?limit=1&minLength=5&maxLength=5&api_key=YOUR_API_KEY'']"
    by code_simp
  show ?thesis
    by (intro conjI) (rule h1 h2 l a b t [THEN conjunct2, THEN conjunct2])+
qed



text \<open>
  C10. Every entry of the dictionary (of either source file) has at least 4 characters and
  one has exactly 4. So for \<open>maxLength \<ge> 4\<close> the entries of length at most \<open>maxLength\<close>
  are not none, and the fallback of \<open>fetchRandomWord\<close> resolves to a dictionary entry
  right after its one random draw, without running the synthetic generator; for
  \<open>maxLength \<ge> 1\<close> no entry is short enough exactly when \<open>maxLength\<close> is 1, 2 or 3, and
  then the result is the synthetic word.
\<close>

theorem localWords_shortest_entry:
  "(\<forall>word\<in>set localWords. 4 \<le> length word) \<and> (\<exists>word\<in>set localWords. length word = 4) \<and>
   (\<forall>word\<in>set localWords_variant. 4 \<le> length word) \<and>
   (\<exists>word\<in>set localWords_variant. length word = 4) \<and>
   (4 \<le> maxLength \<longrightarrow>
      filter (\<lambda>word. length word \<le> maxLength) localWords \<noteq> [] \<and>
      filter (\<lambda>word. length word \<le> maxLength) localWords_variant \<noteq> []) \<and>
   (1 \<le> maxLength \<longrightarrow>
      (filter (\<lambda>word. length word \<le> maxLength) localWords = []) = (maxLength \<in> {1, 2, 3}) \<and>
      (filter (\<lambda>word. length word \<le> maxLength) localWords_variant = []) = (maxLength \<in> {1, 2, 3})) \<and>
   (valid_randoms w \<and> fst (fetchRandomWord_loop 0 maxLength w) = None \<longrightarrow>
      (4 \<le> maxLength \<longrightarrow>
         (\<exists>word\<in>set localWords. length word \<le> maxLength \<and>
            fetchRandomWord maxLength w =
              (Inr word, snd (Math_random (snd (fetchRandomWord_loop 0 maxLength w))))) \<and>
         (\<exists>word\<in>set localWords_variant. length word \<le> maxLength \<and>
            fetchRandomWord_variant maxLength w =
              (Inr word, snd (Math_random (snd (fetchRandomWord_loop 0 maxLength w)))))) \<and>
      (maxLength < 4 \<longrightarrow>
         fetchRandomWord maxLength w =
           (Inr (fst (generateFallbackWord maxLength
                        (snd (Math_random (snd (fetchRandomWord_loop 0 maxLength w)))))),
            snd (generateFallbackWord maxLength
                   (snd (Math_random (snd (fetchRandomWord_loop 0 maxLength w)))))) \<and>
         fetchRandomWord_variant maxLength w = fetchRandomWord maxLength w))"
proof -
  have a: "\<forall>word\<in>set localWords. 4 \<le> length word" using localWords_min by blast
  have b: "\<forall>word\<in>set localWords_variant. 4 \<le> length word" using localWords_variant_min by blast
  have e: "''echo'' \<in> set localWords" "''echo'' \<in> set localWords_variant" "length ''echo'' = 4"
    using localWords_echo by simp_all
  have long: "4 \<le> maxLength \<longrightarrow>
      filter (\<lambda>word. length word \<le> maxLength) localWords \<noteq> [] \<and>
      filter (\<lambda>word. length word \<le> maxLength) localWords_variant \<noteq> []"
    using filter_long_nonempty [OF e(1) e(3)] filter_long_nonempty [OF e(2) e(3)] by blast
  have short: "maxLength < 4 \<longrightarrow>
      filter (\<lambda>word. length word \<le> maxLength) localWords = [] \<and>
      filter (\<lambda>word. length word \<le> maxLength) localWords_variant = []"
    using filter_short_empty [OF a] filter_short_empty [OF b] by blast
  have iff: "1 \<le> maxLength \<longrightarrow>
      (filter (\<lambda>word. length word \<le> maxLength) localWords = []) = (maxLength \<in> {1, 2, 3}) \<and>
      (filter (\<lambda>word. length word \<le> maxLength) localWords_variant = []) = (maxLength \<in> {1, 2, 3})"
  proof
    assume m: "1 \<le> maxLength"
    have "(maxLength \<in> {1, 2, 3}) = (maxLength < 4)" using m by auto
    then show "(filter (\<lambda>word. length word \<le> maxLength) localWords = []) = (maxLength \<in> {1, 2, 3}) \<and>
      (filter (\<lambda>word. length word \<le> maxLength) localWords_variant = []) = (maxLength \<in> {1, 2, 3})"
      using long short by (cases "maxLength < 4") simp_all
  qed
  have fetch: "valid_randoms w \<and> fst (fetchRandomWord_loop 0 maxLength w) = None \<longrightarrow>
      (4 \<le> maxLength \<longrightarrow>
         (\<exists>word\<in>set localWords. length word \<le> maxLength \<and>
            fetchRandomWord maxLength w =
              (Inr word, snd (Math_random (snd (fetchRandomWord_loop 0 maxLength w))))) \<and>
         (\<exists>word\<in>set localWords_variant. length word \<le> maxLength \<and>
            fetchRandomWord_variant maxLength w =
              (Inr word, snd (Math_random (snd (fetchRandomWord_loop 0 maxLength w)))))) \<and>
      (maxLength < 4 \<longrightarrow>
         fetchRandomWord maxLength w =
           (Inr (fst (generateFallbackWord maxLength
                        (snd (Math_random (snd (fetchRandomWord_loop 0 maxLength w)))))),
            snd (generateFallbackWord maxLength
                   (snd (Math_random (snd (fetchRandomWord_loop 0 maxLength w)))))) \<and>
         fetchRandomWord_variant maxLength w = fetchRandomWord maxLength w)"
  proof (intro impI, elim conjE)
    assume v: "valid_randoms w" and n: "fst (fetchRandomWord_loop 0 maxLength w) = None"
    note m = fetchRandomWord_over_by_length [OF v n a e(1) e(3)]
    note s = fetchRandomWord_over_by_length [OF v n b e(2) e(3)]
    show "(4 \<le> maxLength \<longrightarrow>
         (\<exists>word\<in>set localWords. length word \<le> maxLength \<and>
            fetchRandomWord maxLength w =
              (Inr word, snd (Math_random (snd (fetchRandomWord_loop 0 maxLength w))))) \<and>
         (\<exists>word\<in>set localWords_variant. length word \<le> maxLength \<and>
            fetchRandomWord_variant maxLength w =
              (Inr word, snd (Math_random (snd (fetchRandomWord_loop 0 maxLength w)))))) \<and>
      (maxLength < 4 \<longrightarrow>
         fetchRandomWord maxLength w =
           (Inr (fst (generateFallbackWord maxLength
                        (snd (Math_random (snd (fetchRandomWord_loop 0 maxLength w)))))),
            snd (generateFallbackWord maxLength
                   (snd (Math_random (snd (fetchRandomWord_loop 0 maxLength w)))))) \<and>
         fetchRandomWord_variant maxLength w = fetchRandomWord maxLength w)"
      unfolding fetchRandomWord_def fetchRandomWord_variant_def
      using m s by (intro conjI impI) simp_all
  qed
  have "\<exists>word\<in>set localWords. length word = 4" "\<exists>word\<in>set localWords_variant. length word = 4"
    using e by blast+
  then show ?thesis using a b long iff fetch by (intro conjI)
qed

theorem localWords_shortest_entry_witness:
  "(4::nat) \<le> 5 \<and> (1::nat) \<le> 5 \<and> valid_randoms (offline (3/4)) \<and>
   fst (fetchRandomWord_loop 0 5 (offline (3/4))) = None \<and>
   fst (fetchRandomWord_loop 0 3 (offline (3/4))) = None \<and>
   ''echo'' \<in> set localWords \<and>
   filter (\<lambda>word. length word \<le> 5) localWords \<noteq> [] \<and>
   (\<exists>word\<in>set localWords. length word \<le> 5 \<and>
      fetchRandomWord 5 (offline (3/4)) =
        (Inr word, snd (Math_random (snd (fetchRandomWord_loop 0 5 (offline (3/4))))))) \<and>
   (3::nat) < 4 \<and>
   fst (fetchRandomWord 3 (offline (3/4))) = Inr ''tot'' \<and>
   fetchRandomWord 3 (offline (3/4)) =
     (Inr (fst (generateFallbackWord 3
                  (snd (Math_random (snd (fetchRandomWord_loop 0 3 (offline (3/4)))))))),
      snd (generateFallbackWord 3
             (snd (Math_random (snd (fetchRandomWord_loop 0 3 (offline (3/4))))))))"
proof -
  have h1: "valid_randoms (offline (3/4))" by (simp add: offline_valid)
  have h5: "fst (fetchRandomWord_loop 0 5 (offline (3/4))) = None"
    by (rule all_failing_loop [OF offline_failing])
  have h3: "fst (fetchRandomWord_loop 0 3 (offline (3/4))) = None"
    by (rule all_failing_loop [OF offline_failing])
  have n5: "(4::nat) \<le> 5" and n1: "(1::nat) \<le> 5" and n3: "(3::nat) < 4" by simp_all
  have tot: "fst (fetchRandomWord 3 (offline (3/4))) = Inr ''tot''" by code_simp
  note t5 = localWords_shortest_entry [of 5 "offline (3/4)"]
  note t3 = localWords_shortest_entry [of 3 "offline (3/4)"]
  have ne: "filter (\<lambda>word. length word \<le> 5) localWords \<noteq> []"
    using t5 n5 by blast
  have d: "\<exists>word\<in>set localWords. length word \<le> 5 \<and>
      fetchRandomWord 5 (offline (3/4)) =
        (Inr word, snd (Math_random (snd (fetchRandomWord_loop 0 5 (offline (3/4))))))"
    using t5 n5 h1 h5 by blast
  have s: "fetchRandomWord 3 (offline (3/4)) =
     (Inr (fst (generateFallbackWord 3
                  (snd (Math_random (snd (fetchRandomWord_loop 0 3 (offline (3/4)))))))),
      snd (generateFallbackWord 3
             (snd (Math_random (snd (fetchRandomWord_loop 0 3 (offline (3/4))))))))"
    using t3 n3 h1 h3 by blast
  show ?thesis
    by (intro conjI) (rule n5 n1 h1 h5 h3 localWords_echo(1) ne d n3 tot s)+
qed

text \<open>
  C7. For every string and every shift from 1 to 25, ciphering with the shift and then
  with \<open>26 - shift\<close> gives the string back, and \<open>caesarCipher\<close> leaves every character
  that is not an ASCII letter where and as it is.
\<close>

theorem caesarCipher_round_trip:
  assumes "1 \<le> shift" "shift \<le> 25"
  shows "caesarCipher (caesarCipher text shift) (26 - shift) = text \<and>
         (\<forall>i<length text. \<not> (isLowerLetter (text ! i) \<or> isUpperLetter (text ! i)) \<longrightarrow>
              caesarCipher text shift ! i = text ! i)"
proof
  have s: "0 \<le> shift" using assms by simp
  have "\<And>c. (if isLowerLetter c \<or> isUpperLetter c then caesarChar shift c else c) = d \<Longrightarrow>
      (if isLowerLetter d \<or> isUpperLetter d then caesarChar (26 - shift) d else d) = c" for d
    using caesarChar_round_trip [OF _ assms] caesarChar_keeps_lower [OF _ s]
      caesarChar_keeps_upper [OF _ s]
    by (auto split: if_splits)
  then show "caesarCipher (caesarCipher text shift) (26 - shift) = text"
    by (simp add: caesarCipher_def map_idI)
  show "\<forall>i<length text. \<not> (isLowerLetter (text ! i) \<or> isUpperLetter (text ! i)) \<longrightarrow>
              caesarCipher text shift ! i = text ! i"
    by (simp add: caesarCipher_def)
qed

theorem caesarCipher_round_trip_witness:
  "(1::int) \<le> 3 \<and> (3::int) \<le> 25 \<and>
   caesarCipher ''Attack At Dawn'' 3 = ''Dwwdfn Dw Gdzq'' \<and>
   caesarCipher ''Dwwdfn Dw Gdzq'' (26 - 3) = ''Attack At Dawn'' \<and>
   caesarCipher (caesarCipher ''Attack At Dawn'' 3) (26 - 3) = ''Attack At Dawn''"
proof -
  have h: "(1::int) \<le> 3" "(3::int) \<le> 25" by simp_all
  have e: "caesarCipher ''Attack At Dawn'' 3 = ''Dwwdfn Dw Gdzq''" by code_simp
  have r: "caesarCipher (caesarCipher ''Attack At Dawn'' 3) (26 - 3) = ''Attack At Dawn''"
    using caesarCipher_round_trip [OF h, of "''Attack At Dawn''"] by (rule conjunct1)
  have d: "caesarCipher ''Dwwdfn Dw Gdzq'' (26 - 3) = ''Attack At Dawn''"
    using r unfolding e .
  show ?thesis
    by (intro conjI) (rule h e r d)+
qed

text \<open>
  C8. For every string and every shift from 1 to 25, \<open>caesarCipher\<close> is the cipher of
  the specification: each ASCII letter is moved forward by \<open>shift\<close> positions within the
  26-letter alphabet of its own case, wrapping modulo 26, and every other character is
  unchanged; lower-case letters stay lower-case and upper-case letters stay upper-case. In
  particular \<open>caesarCipher("Attack At Dawn", 3)\<close> is \<open>"Dwwdfn Dw Gdzq"\<close>.
\<close>

theorem caesarCipher_shifts_letters:
  assumes "1 \<le> shift" "shift \<le> 25"
  shows "caesarCipher text shift = encode_spec text shift \<and>
         length (caesarCipher text shift) = length text \<and>
         (\<forall>i<length text.
            (isLowerLetter (text ! i) \<longrightarrow> isLowerLetter (caesarCipher text shift ! i)) \<and>
            (isUpperLetter (text ! i) \<longrightarrow> isUpperLetter (caesarCipher text shift ! i)) \<and>
            (\<not> isLowerLetter (text ! i) \<and> \<not> isUpperLetter (text ! i) \<longrightarrow>
               caesarCipher text shift ! i = text ! i)) \<and>
         caesarCipher ''Attack At Dawn'' 3 = ''Dwwdfn Dw Gdzq''"
proof (intro conjI allI impI)
  have s: "0 \<le> shift" using assms by simp
  have "(if isLowerLetter c \<or> isUpperLetter c then caesarChar shift c else c)
          = encode_char_spec shift c" for c
    using encode_char_spec_lower [OF _ s, of c] encode_char_spec_upper [OF _ s, of c]
      encode_char_spec_other [of c shift]
    by auto
  then show "caesarCipher text shift = encode_spec text shift"
    by (simp add: caesarCipher_def encode_spec_def)
  show "length (caesarCipher text shift) = length text" by simp
  show "caesarCipher ''Attack At Dawn'' 3 = ''Dwwdfn Dw Gdzq''" by code_simp
  fix i assume i: "i < length text"
  show "isLowerLetter (caesarCipher text shift ! i)" if "isLowerLetter (text ! i)"
    using that i caesarChar_keeps_lower [OF that s] by (simp add: caesarCipher_def)
  show "isUpperLetter (caesarCipher text shift ! i)" if "isUpperLetter (text ! i)"
    using that i caesarChar_keeps_upper [OF that s] by (simp add: caesarCipher_def)
  show "caesarCipher text shift ! i = text ! i"
    if "\<not> isLowerLetter (text ! i) \<and> \<not> isUpperLetter (text ! i)"
    using that i by (simp add: caesarCipher_def)
qed

theorem caesarCipher_shifts_letters_witness:
  "(1::int) \<le> 25 \<and> (25::int) \<le> 25 \<and>
   caesarCipher ''Zebra-42 x'' 25 = ''Ydaqz-42 w'' \<and>
   encode_spec ''Zebra-42 x'' 25 = ''Ydaqz-42 w'' \<and>
   caesarCipher ''Zebra-42 x'' 25 = encode_spec ''Zebra-42 x'' 25"
proof -
  have h: "(1::int) \<le> 25" "(25::int) \<le> 25" by simp_all
  have e: "caesarCipher ''Zebra-42 x'' 25 = ''Ydaqz-42 w''" by code_simp
  have r: "caesarCipher ''Zebra-42 x'' 25 = encode_spec ''Zebra-42 x'' 25"
    using caesarCipher_shifts_letters [OF h, of "''Zebra-42 x''"] by (rule conjunct1)
  have d: "encode_spec ''Zebra-42 x'' 25 = ''Ydaqz-42 w''"
    using e unfolding r .
  show ?thesis
    by (intro conjI) (rule h e d r)+
qed

end
